theory Spec2Isabelle
  imports Main "HOL-Library.AList"
begin

section \<open>Budgeted fragment selection of \<^verbatim>\<open>parser_sentence_transformer.py\<close>\<close>

text \<open>
  The development embeds the functions \<^verbatim>\<open>chunk_to_length\<close>, \<^verbatim>\<open>embed\<close>,
  \<^verbatim>\<open>convert\<close> and \<^verbatim>\<open>predict\<close> of \<^verbatim>\<open>src/parser_sentence_transformer.py\<close>.
  Python strings are \<^typ>\<open>string\<close>, Python integers are \<^typ>\<open>int\<close>, list positions
  produced by \<^verbatim>\<open>range\<close> and \<^verbatim>\<open>enumerate\<close> are \<^typ>\<open>nat\<close>, a \<^verbatim>\<open>dict\<close> is an
  association list in insertion order, a raised exception is the left injection of a sum,
  and a loop that may not return yields \<^term>\<open>None\<close>.
\<close>

subsection \<open>Exceptions\<close>

datatype error =
    ValueError string
  | IndexError
  | OSError string

subsection \<open>String slicing\<close>

text \<open>
  \<^verbatim>\<open>text[:n]\<close> and \<^verbatim>\<open>text[n:]\<close> for an integer \<^verbatim>\<open>n\<close>: a negative bound counts from
  the end of the string and is clipped at the start.
\<close>

definition slice_to :: "'a list \<Rightarrow> int \<Rightarrow> 'a list" where
  "slice_to text n =
     (if 0 \<le> n then take (nat n) text else take (nat (int (length text) + n)) text)"

definition slice_from :: "'a list \<Rightarrow> int \<Rightarrow> 'a list" where
  "slice_from text n =
     (if 0 \<le> n then drop (nat n) text else drop (nat (int (length text) + n)) text)"

subsection \<open>The chunker\<close>

text \<open>
  \<^verbatim>\<open>
  def chunk_to_length(text, max_length=512):
      chunks = []
      while len(text) > max_length:
          chunks.append(text[:max_length])
          text = text[max_length:]
      chunks.append(text)
      return chunks
  \<close>
  The loop carries \<^verbatim>\<open>chunks\<close> and \<^verbatim>\<open>text\<close>. It does not return for every
  \<^verbatim>\<open>max_length\<close> (with \<^verbatim>\<open>max_length = 0\<close> a non-empty text never shrinks), so the
  result is optional.
\<close>

partial_function (option) chunk_loop :: "string list \<Rightarrow> string \<Rightarrow> int \<Rightarrow> string list option"
  where
  "chunk_loop chunks text max_length =
     (if int (length text) > max_length
      then chunk_loop (chunks @ [slice_to text max_length]) (slice_from text max_length) max_length
      else Some (chunks @ [text]))"

declare chunk_loop.simps [code]

definition chunk_to_length :: "string \<Rightarrow> int \<Rightarrow> string list option" where
  "chunk_to_length text max_length = chunk_loop [] text max_length"

text \<open>The number \<open>\<lceil>N / S\<rceil>\<close> of the data model, on integers.\<close>

definition ceil_div :: "int \<Rightarrow> int \<Rightarrow> int" where
  "ceil_div n s = (n + s - 1) div s"

subsection \<open>Checked list access and comprehensions that may raise\<close>

text \<open>
  \<^verbatim>\<open>xs[i]\<close> for a position \<^verbatim>\<open>i \<ge> 0\<close> raises \<^verbatim>\<open>IndexError\<close> beyond the end of the
  list. Every position in \<^verbatim>\<open>predict\<close> comes from \<^verbatim>\<open>range\<close> or \<^verbatim>\<open>enumerate\<close>, so
  none is negative.
\<close>

definition index :: "'a list \<Rightarrow> nat \<Rightarrow> error + 'a" where
  "index xs i = (if i < length xs then Inr (xs ! i) else Inl IndexError)"

definition index2 :: "'a list list \<Rightarrow> nat \<Rightarrow> nat \<Rightarrow> error + 'a" where
  "index2 xss i j = (case index xss i of Inl e \<Rightarrow> Inl e | Inr xs \<Rightarrow> index xs j)"

text \<open>A list comprehension \<^verbatim>\<open>[f(x) for x in xs]\<close> stops at the first exception.\<close>

fun comprehension :: "('a \<Rightarrow> error + 'b) \<Rightarrow> 'a list \<Rightarrow> error + 'b list" where
  "comprehension f [] = Inr []"
| "comprehension f (x # xs) =
     (case f x of
        Inl e \<Rightarrow> Inl e
      | Inr y \<Rightarrow> (case comprehension f xs of Inl e \<Rightarrow> Inl e | Inr ys \<Rightarrow> Inr (y # ys)))"

text \<open>\<^verbatim>\<open>s.split(sep)\<close> for a one-character separator: one piece more than separators.\<close>

fun split :: "string \<Rightarrow> char \<Rightarrow> string list" where
  "split [] sep = [[]]"
| "split (c # cs) sep =
     (if c = sep then [] # split cs sep
      else (case split cs sep of [] \<Rightarrow> [[c]] | w # ws \<Rightarrow> (c # w) # ws))"

definition newline :: char where
  "newline = CHR 0x0A"

definition endswith :: "string \<Rightarrow> string \<Rightarrow> bool" where
  "endswith s suffix =
     (length suffix \<le> length s \<and> drop (length s - length suffix) s = suffix)"

subsection \<open>The converter\<close>

text \<open>
  \<^verbatim>\<open>convert\<close> chooses by the file name between reading the file as it is,
  \<^verbatim>\<open>convert_pdf\<close> and \<^verbatim>\<open>convert_pandoc\<close>. These three read files and run pypdf,
  ocrmypdf and pandoc; they are parameters here, each returning a text or raising.
\<close>

record 'd filesystem =
  read_file :: "'d \<Rightarrow> error + string"
  convert_pdf :: "'d \<Rightarrow> error + string"
  convert_pandoc :: "'d \<Rightarrow> string \<Rightarrow> error + string"

definition plain_text_filetypes :: "string list" where
  "plain_text_filetypes =
     [''.txt'', ''.csv'', ''.tsv'', ''.md'', ''.yaml'', ''.toml'', ''.json'', ''.json5'',
      ''.jsonc'']"

definition convert :: "'d filesystem \<Rightarrow> 'd \<Rightarrow> string \<Rightarrow> error + string" where
  "convert fs input_file filename =
     (if list_ex (\<lambda>ft. endswith filename ft) plain_text_filetypes then read_file fs input_file
      else if endswith filename ''.pdf'' then convert_pdf fs input_file
      else convert_pandoc fs input_file filename)"

subsection \<open>The scorer\<close>

text \<open>
  The sentence-transformer model is a parameter: \<^verbatim>\<open>model.encode\<close> gives one vector per
  string (with the query prompt for queries), and an entry of the matrix product
  \<^verbatim>\<open>query_embeddings @ document_embeddings.T\<close> is the inner product of a query vector
  and a chunk vector. Scores are compared only, so they live in any linear order.
\<close>

record ('v, 's) model =
  encode_query :: "string \<Rightarrow> 'v"
  encode :: "string \<Rightarrow> 'v"
  inner :: "'v \<Rightarrow> 'v \<Rightarrow> 's"

text \<open>
  \<^verbatim>\<open>
  def embed(queries, chunks):
      query_embeddings = model.encode(queries, prompt_name="query")
      document_embeddings = model.encode(chunks)
      scores = query_embeddings @ document_embeddings.T
      results = {}
      for query, query_scores in zip(queries, scores):
          chunk_idxs = [i for i in range(len(chunks))]
          results[query] = list(zip(chunk_idxs, query_scores))
      return results
  \<close>
  A dictionary is an association list in insertion order; \<^const>\<open>AList.update\<close> overwrites
  the value of a key that is present, where it stands, and appends a new key.
\<close>

definition embed ::
  "('v, 's) model \<Rightarrow> string list \<Rightarrow> string list \<Rightarrow> (string \<times> (nat \<times> 's) list) list" where
  "embed m queries chunks =
     (let query_embeddings = map (encode_query m) queries;
          document_embeddings = map (encode m) chunks;
          scores = map (\<lambda>q. map (inner m q) document_embeddings) query_embeddings
      in foldl (\<lambda>results (query, query_scores).
                  let chunk_idxs = [0..<length chunks]
                  in AList.update query (zip chunk_idxs query_scores) results)
           [] (zip queries scores))"

subsection \<open>Sorting by descending key\<close>

text \<open>
  \<^verbatim>\<open>sorted(xs, key=k, reverse=True)\<close> is a stable sort by descending key: elements
  with equal keys keep their order.
\<close>

fun insort_reverse :: "('a \<Rightarrow> 'k::linorder) \<Rightarrow> 'a \<Rightarrow> 'a list \<Rightarrow> 'a list" where
  "insort_reverse k x [] = [x]"
| "insort_reverse k x (y # ys) =
     (if k x \<ge> k y then x # y # ys else y # insort_reverse k x ys)"

definition sorted_reverse :: "('a \<Rightarrow> 'k::linorder) \<Rightarrow> 'a list \<Rightarrow> 'a list" where
  "sorted_reverse k xs = foldr (insort_reverse k) xs []"

subsection \<open>The merged candidate queues\<close>

type_synonym 's candidate = "nat \<times> nat \<times> 's"

type_synonym 's queues = "(string \<times> 's candidate list) list"

definition score :: "'s candidate \<Rightarrow> 's" where
  "score x = snd (snd x)"

text \<open>
  \<^verbatim>\<open>
  query_embeddings = {}
  for doc_idx, embedded_doc in enumerate(embedded_docs):
      for query, doc_scores in embedded_doc.items():
          doc_scores_with_doc = [
              (doc_idx, chunk_idx, score) for (chunk_idx, score) in doc_scores
          ]
          if query not in query_embeddings:
              query_embeddings[query] = []
          query_embeddings[query] = query_embeddings[query] + doc_scores_with_doc
  \<close>
\<close>

definition add_doc_scores ::
  "nat \<Rightarrow> 's queues \<Rightarrow> string \<times> (nat \<times> 's) list \<Rightarrow> 's queues" where
  "add_doc_scores doc_idx query_embeddings entry =
     (case entry of (query, doc_scores) \<Rightarrow>
        let doc_scores_with_doc =
              map (\<lambda>(chunk_idx, score). (doc_idx, chunk_idx, score)) doc_scores;
            present = (case map_of query_embeddings query of None \<Rightarrow> [] | Some old \<Rightarrow> old)
        in AList.update query (present @ doc_scores_with_doc) query_embeddings)"

definition merge_docs :: "(string \<times> (nat \<times> 's) list) list list \<Rightarrow> 's queues" where
  "merge_docs embedded_docs =
     foldl (\<lambda>query_embeddings (doc_idx, embedded_doc).
              foldl (add_doc_scores doc_idx) query_embeddings embedded_doc)
       [] (zip [0..<length embedded_docs] embedded_docs)"

text \<open>
  \<^verbatim>\<open>
  for query, doc_scores in query_embeddings.items():
      query_embeddings[query] = sorted(doc_scores, key=lambda x: x[2], reverse=True)
  \<close>
  Every key keeps its place.
\<close>

definition sort_queues :: "('s::linorder) queues \<Rightarrow> 's queues" where
  "sort_queues query_embeddings =
     map (\<lambda>(query, doc_scores). (query, sorted_reverse score doc_scores)) query_embeddings"

definition candidate_queues ::
  "('v, 's::linorder) model \<Rightarrow> string list \<Rightarrow> string list list \<Rightarrow> 's queues" where
  "candidate_queues m queries chunked_docs =
     (let embedded_docs = map (\<lambda>chunks. embed m queries chunks) chunked_docs
      in sort_queues (merge_docs embedded_docs))"

subsection \<open>The allocation loop\<close>

text \<open>
  The state of the loop is the dictionary of queues \<^verbatim>\<open>query_embeddings\<close>, the selected
  chunk positions per document \<^verbatim>\<open>document_embeddings\<close> and \<^verbatim>\<open>total_chars\<close>.
  What the body of the \<^verbatim>\<open>for\<close> loop does with a candidate it has popped:
  \<^verbatim>\<open>
  chunk = chunked_docs[doc_idx][chunk_idx]
  if total_chars + len(chunk) > max_characters:
      continue
  if chunk_idx in document_embeddings[doc_idx]:
      continue
  document_embeddings[doc_idx].append(chunk_idx)
  total_chars += len(chunk)
  \<close>
\<close>

type_synonym selection = "nat list list \<times> int"

definition take_candidate ::
  "string list list \<Rightarrow> int \<Rightarrow> selection \<Rightarrow> 's candidate \<Rightarrow> error + selection" where
  "take_candidate chunked_docs max_characters st cand =
     (case st of (document_embeddings, total_chars) \<Rightarrow>
      case cand of (doc_idx, chunk_idx, _) \<Rightarrow>
        (case index2 chunked_docs doc_idx chunk_idx of
           Inl e \<Rightarrow> Inl e
         | Inr chunk \<Rightarrow>
             if total_chars + int (length chunk) > max_characters then Inr st
             else (case index document_embeddings doc_idx of
                     Inl e \<Rightarrow> Inl e
                   | Inr selected \<Rightarrow>
                       if chunk_idx \<in> set selected then Inr st
                       else Inr (document_embeddings[doc_idx := selected @ [chunk_idx]],
                                 total_chars + int (length chunk)))))"

text \<open>
  One pass of \<^verbatim>\<open>for query, doc_scores in query_embeddings.items()\<close>: an empty queue is
  skipped, any other queue loses its head (\<^verbatim>\<open>doc_scores.pop(0)\<close>) to
  \<^const>\<open>take_candidate\<close>.
\<close>

fun allocate_round ::
  "string list list \<Rightarrow> int \<Rightarrow> 's queues \<Rightarrow> selection \<Rightarrow> error + ('s queues \<times> selection)" where
  "allocate_round chunked_docs max_characters [] st = Inr ([], st)"
| "allocate_round chunked_docs max_characters ((query, []) # rest) st =
     (case allocate_round chunked_docs max_characters rest st of
        Inl e \<Rightarrow> Inl e
      | Inr (rest', st') \<Rightarrow> Inr ((query, []) # rest', st'))"
| "allocate_round chunked_docs max_characters ((query, cand # doc_scores) # rest) st =
     (case take_candidate chunked_docs max_characters st cand of
        Inl e \<Rightarrow> Inl e
      | Inr st1 \<Rightarrow>
          (case allocate_round chunked_docs max_characters rest st1 of
             Inl e \<Rightarrow> Inl e
           | Inr (rest', st') \<Rightarrow> Inr ((query, doc_scores) # rest', st')))"

definition queued :: "'s queues \<Rightarrow> nat" where
  "queued query_embeddings = sum_list (map (\<lambda>x. length (snd x)) query_embeddings)"

lemma allocate_round_pops:
  "allocate_round chunked_docs max_characters qe st = Inr (qe', st')
   \<Longrightarrow> qe' = map (\<lambda>(query, doc_scores). (query, drop 1 doc_scores)) qe"
  by (induction chunked_docs max_characters qe st arbitrary: qe' st'
      rule: allocate_round.induct)
    (auto split: sum.splits prod.splits)

lemma queued_pops:
  "0 < queued qe \<Longrightarrow> queued (map (\<lambda>(query, doc_scores). (query, drop 1 doc_scores)) qe) < queued qe"
proof (induction qe)
  case Nil
  then show ?case by (simp add: queued_def)
next
  case (Cons x qe)
  have le: "queued (map (\<lambda>(query, doc_scores). (query, drop 1 doc_scores)) qe) \<le> queued qe"
    by (induction qe) (auto simp: queued_def)
  show ?case
  proof (cases "snd x")
    case Nil
    with Cons show ?thesis by (cases x) (auto simp: queued_def)
  next
    case (Cons c cs)
    with le show ?thesis by (cases x) (auto simp: queued_def)
  qed
qed

text \<open>
  \<^verbatim>\<open>
  while (
      total_chars < max_characters
      and sum([len(x) for x in query_embeddings.values()]) > 0
  ):
      for query, doc_scores in query_embeddings.items(): ...
  \<close>
\<close>

function allocate_loop ::
  "string list list \<Rightarrow> int \<Rightarrow> 's queues \<Rightarrow> selection \<Rightarrow> error + ('s queues \<times> selection)" where
  "allocate_loop chunked_docs max_characters query_embeddings st =
     (if snd st < max_characters \<and> queued query_embeddings > 0
      then (case allocate_round chunked_docs max_characters query_embeddings st of
              Inl e \<Rightarrow> Inl e
            | Inr (query_embeddings', st') \<Rightarrow>
                allocate_loop chunked_docs max_characters query_embeddings' st')
      else Inr (query_embeddings, st))"
  by pat_completeness auto

termination
proof (relation "measure (\<lambda>(chunked_docs, max_characters, qe, st). queued qe)")
  show "wf (measure (\<lambda>(chunked_docs, max_characters, qe, st). queued qe))"
    by simp
next
  fix chunked_docs :: "string list list" and max_characters :: int
    and query_embeddings :: "'s queues" and st :: selection
    and x2 :: "'s queues \<times> selection" and x y
  assume "snd st < max_characters \<and> 0 < queued query_embeddings"
    and "allocate_round chunked_docs max_characters query_embeddings st = Inr x2"
    and "(x, y) = x2"
  then show "((chunked_docs, max_characters, x, y), chunked_docs, max_characters,
              query_embeddings, st)
             \<in> measure (\<lambda>(chunked_docs, max_characters, qe, st). queued qe)"
    using allocate_round_pops [of chunked_docs max_characters query_embeddings st x y]
      queued_pops [of query_embeddings]
    by auto
qed

declare allocate_loop.simps [simp del]

text \<open>
  \<^verbatim>\<open>
  document_embeddings = [[] for _ in range(len(documents))]
  total_chars = 0
  while ...
  \<close>
  The value is \<^verbatim>\<open>document_embeddings\<close> when the loop is left.
\<close>

definition allocate ::
  "string list list \<Rightarrow> 's queues \<Rightarrow> nat \<Rightarrow> int \<Rightarrow> error + nat list list" where
  "allocate chunked_docs query_embeddings n_documents max_characters =
     (case allocate_loop chunked_docs max_characters query_embeddings
             (replicate n_documents [], 0) of
        Inl e \<Rightarrow> Inl e
      | Inr (_, document_embeddings, _) \<Rightarrow> Inr document_embeddings)"

text \<open>
  \<^verbatim>\<open>
  document_embeddings = [
      [chunked_docs[doc_idx][chunk_idx] for chunk_idx in chunks]
      for doc_idx, chunks in enumerate(document_embeddings)
  ]
  \<close>
\<close>

definition chunk_texts :: "string list list \<Rightarrow> nat list list \<Rightarrow> error + string list list" where
  "chunk_texts chunked_docs document_embeddings =
     comprehension
       (\<lambda>(doc_idx, chunks). comprehension (\<lambda>chunk_idx. index2 chunked_docs doc_idx chunk_idx) chunks)
       (zip [0..<length document_embeddings] document_embeddings)"

subsection \<open>The entry point\<close>

text \<open>
  The early return unpacks every converted document, a string, into two names:
  \<^verbatim>\<open>return [[doc] for doc, _ in converted_docs]\<close>. Unpacking a string yields its
  characters, and raises \<^verbatim>\<open>ValueError\<close> unless there are exactly two.
\<close>

fun unpack_pair :: "string \<Rightarrow> error + (string \<times> string)" where
  "unpack_pair [] = Inl (ValueError ''not enough values to unpack (expected 2, got 0)'')"
| "unpack_pair [a] = Inl (ValueError ''not enough values to unpack (expected 2, got 1)'')"
| "unpack_pair [a, b] = Inr ([a], [b])"
| "unpack_pair (a # b # c # cs) = Inl (ValueError ''too many values to unpack (expected 2)'')"

definition total_length :: "string list \<Rightarrow> int" where
  "total_length converted_docs = sum_list (map (\<lambda>doc. int (length doc)) converted_docs)"

definition convert_docs :: "'d filesystem \<Rightarrow> 'd list \<Rightarrow> string list \<Rightarrow> error + string list" where
  "convert_docs fs documents document_filenames =
     comprehension (\<lambda>(doc, filename). convert fs doc filename) (zip documents document_filenames)"

text \<open>
  \<^verbatim>\<open>predict(queries, documents, document_filenames, max_characters)\<close>. The result is
  \<^term>\<open>None\<close> when the call does not return, \<^term>\<open>Some (Inl e)\<close> when it raises
  \<^term>\<open>e\<close>, and \<^term>\<open>Some (Inr fragments)\<close> when it returns.
\<close>

definition predict ::
  "'d filesystem \<Rightarrow> ('v, 's::linorder) model \<Rightarrow> string \<Rightarrow> 'd list \<Rightarrow> string \<Rightarrow> int
   \<Rightarrow> (error + string list list) option" where
  "predict fs m queries documents document_filenames max_characters =
     (let queries = split queries newline;
          document_filenames = split document_filenames newline
      in case convert_docs fs documents document_filenames of
           Inl e \<Rightarrow> Some (Inl e)
         | Inr converted_docs \<Rightarrow>
             let total_doc_lengths = total_length converted_docs
             in if total_doc_lengths < max_characters
                then Some (comprehension
                       (\<lambda>d. case unpack_pair d of Inl e \<Rightarrow> Inl e | Inr (doc, _) \<Rightarrow> Inr [doc])
                       converted_docs)
                else (case those (map (\<lambda>doc. chunk_to_length doc 512) converted_docs) of
                        None \<Rightarrow> None
                      | Some chunked_docs \<Rightarrow>
                          let query_embeddings = candidate_queues m queries chunked_docs
                          in Some (case allocate chunked_docs query_embeddings
                                          (length documents) max_characters of
                                     Inl e \<Rightarrow> Inl e
                                   | Inr document_embeddings \<Rightarrow>
                                       chunk_texts chunked_docs document_embeddings)))"

section \<open>Notions for the statements\<close>

text \<open>
  The keys of a dictionary that is filled from a list of keys: every key once, where
  it first stands in the list.
\<close>

definition first_occurrences :: "'a list \<Rightarrow> 'a list" where
  "first_occurrences xs = rev (remdups (rev xs))"

text \<open>
  The list that \<^verbatim>\<open>embed\<close> stores for one query: every chunk position with the score
  of the query against that chunk.
\<close>

definition query_scores_of :: "('v, 's) model \<Rightarrow> string list \<Rightarrow> string \<Rightarrow> (nat \<times> 's) list" where
  "query_scores_of m chunks query =
     map (\<lambda>i. (i, inner m (encode_query m query) (encode m (chunks ! i)))) [0..<length chunks]"

text \<open>
  The candidates of one query before the sort: the documents in order, and the chunks
  of a document in order.
\<close>

definition tag_doc :: "nat \<Rightarrow> (nat \<times> 's) list \<Rightarrow> 's candidate list" where
  "tag_doc doc_idx doc_scores = map (\<lambda>(chunk_idx, score). (doc_idx, chunk_idx, score)) doc_scores"

definition all_candidates :: "('v, 's) model \<Rightarrow> string list list \<Rightarrow> string \<Rightarrow> 's candidate list" where
  "all_candidates m chunked_docs query =
     concat (map (\<lambda>(doc_idx, chunks). tag_doc doc_idx (query_scores_of m chunks query))
               (zip [0..<length chunked_docs] chunked_docs))"

text \<open>
  The order of two candidates by document position and then chunk position, and the
  order of a sorted queue: by descending score, and among equal scores by position.
\<close>

definition position_before :: "'s candidate \<Rightarrow> 's candidate \<Rightarrow> bool" where
  "position_before a b = (fst a < fst b \<or> (fst a = fst b \<and> fst (snd a) < fst (snd b)))"

definition candidate_before :: "('s::linorder) candidate \<Rightarrow> 's candidate \<Rightarrow> bool" where
  "candidate_before a b =
     (case a of (doc_a, chunk_a, score_a) \<Rightarrow>
      case b of (doc_b, chunk_b, score_b) \<Rightarrow>
        score_a > score_b
        \<or> (score_a = score_b \<and> (doc_a < doc_b \<or> (doc_a = doc_b \<and> chunk_a < chunk_b))))"

text \<open>
  The characters of a selection, and what holds of the selection and the running total
  throughout the loop: no chunk position twice for a document, every selected position
  inside the chunked documents, and the total is the number of selected characters.
\<close>

definition selected_chars :: "string list list \<Rightarrow> nat list list \<Rightarrow> int" where
  "selected_chars chunked_docs document_embeddings =
     (\<Sum>d<length document_embeddings.
        sum_list (map (\<lambda>i. int (length (chunked_docs ! d ! i))) (document_embeddings ! d)))"

definition selection_ok :: "string list list \<Rightarrow> selection \<Rightarrow> bool" where
  "selection_ok chunked_docs st =
     ((\<forall>d<length (fst st). distinct (fst st ! d)
          \<and> (\<forall>i \<in> set (fst st ! d). d < length chunked_docs \<and> i < length (chunked_docs ! d)))
      \<and> snd st = selected_chars chunked_docs (fst st))"

text \<open>
  Every candidate of every queue points inside the chunked documents and inside a list
  of \<^verbatim>\<open>n_documents\<close> selections.
\<close>

definition queues_in_range :: "string list list \<Rightarrow> nat \<Rightarrow> 's queues \<Rightarrow> bool" where
  "queues_in_range chunked_docs n_documents query_embeddings =
     (\<forall>(query, doc_scores) \<in> set query_embeddings.
        \<forall>(doc_idx, chunk_idx, s) \<in> set doc_scores.
          doc_idx < length chunked_docs \<and> chunk_idx < length (chunked_docs ! doc_idx)
          \<and> doc_idx < n_documents)"

text \<open>
  The loop body applied to a list of candidates in turn; the candidates at position
  \<open>k\<close> of the queues that are long enough, in the order of the dictionary; and the
  queues without their first \<open>k\<close> candidates.
\<close>

fun take_candidates ::
  "string list list \<Rightarrow> int \<Rightarrow> selection \<Rightarrow> 's candidate list \<Rightarrow> error + selection" where
  "take_candidates chunked_docs max_characters st [] = Inr st"
| "take_candidates chunked_docs max_characters st (cand # cands) =
     (case take_candidate chunked_docs max_characters st cand of
        Inl e \<Rightarrow> Inl e
      | Inr st1 \<Rightarrow> take_candidates chunked_docs max_characters st1 cands)"

definition round_candidates :: "nat \<Rightarrow> 's queues \<Rightarrow> 's candidate list" where
  "round_candidates k query_embeddings =
     concat (map (\<lambda>(query, doc_scores). take 1 (drop k doc_scores)) query_embeddings)"

definition pop_queues :: "nat \<Rightarrow> 's queues \<Rightarrow> 's queues" where
  "pop_queues k query_embeddings =
     map (\<lambda>(query, doc_scores). (query, drop k doc_scores)) query_embeddings"

text \<open>
  Examples: a file system in which the handle of a document is the text of its file
  (and pandoc fails), a model that embeds a string as its length, with the product as
  inner product, and the sorted queues of the queries \<^verbatim>\<open>q\<close> and \<^verbatim>\<open>qq\<close> over one
  document with the chunks \<^verbatim>\<open>a\<close> and \<^verbatim>\<open>bb\<close> under that model.
\<close>

definition example_fs :: "string filesystem" where
  "example_fs =
     \<lparr>read_file = (\<lambda>d. Inr d),
      convert_pdf = (\<lambda>d. Inr d),
      convert_pandoc =
        (\<lambda>d filename. Inl (ValueError ''Error converting file to markdown with pandoc''))\<rparr>"

definition example_model :: "(nat, nat) model" where
  "example_model = \<lparr>encode_query = length, encode = length, inner = (\<lambda>a b. a * b)\<rparr>"

definition example_queues :: "nat queues" where
  "example_queues = [(''q'', [(0, 1, 2), (0, 0, 1)]), (''qq'', [(0, 1, 4), (0, 0, 2)])]"

section \<open>Properties of the chunker\<close>

lemma ceil_div_small: "0 < n \<Longrightarrow> n \<le> s \<Longrightarrow> ceil_div n s = 1"
proof -
  assume a: "0 < n" "n \<le> s"
  have "n + s - 1 = (n - 1) + s" by simp
  then have "ceil_div n s = (n - 1) div s + 1"
    unfolding ceil_div_def using a by (metis div_add_self2 less_le_trans not_less_iff_gr_or_eq)
  with a show ?thesis by simp
qed

lemma ceil_div_step: "0 < s \<Longrightarrow> ceil_div (n - s) s + 1 = ceil_div n s"
proof -
  assume a: "0 < s"
  have "n + s - 1 = (n - s + s - 1) + s" by simp
  then show ?thesis
    unfolding ceil_div_def using a by (metis div_add_self2 less_irrefl)
qed

lemma chunk_loop_positive:
  assumes "0 < max_length"
  shows "\<exists>cs. chunk_loop chunks text max_length = Some (chunks @ cs)
           \<and> cs \<noteq> []
           \<and> concat cs = text
           \<and> (\<forall>c \<in> set (butlast cs). int (length c) = max_length)
           \<and> int (length (last cs)) \<le> max_length
           \<and> (text \<noteq> [] \<longrightarrow> last cs \<noteq> [])
           \<and> int (length cs) =
               (if text = [] then 1 else ceil_div (int (length text)) max_length)"
proof (induction "length text" arbitrary: "text" chunks rule: less_induct)
  case less
  show ?case
  proof (cases "int (length text) > max_length")
    case False
    then have "chunk_loop chunks text max_length = Some (chunks @ [text])"
      by (subst chunk_loop.simps) simp
    moreover from False assms have
      "text \<noteq> [] \<Longrightarrow> ceil_div (int (length text)) max_length = 1"
      by (simp add: ceil_div_small)
    ultimately show ?thesis using False by simp
  next
    case True
    let ?h = "slice_to text max_length" and ?t = "slice_from text max_length"
    from True assms have len_h: "int (length ?h) = max_length"
      by (simp add: slice_to_def)
    from True assms have shorter: "length ?t < length text" and t_ne: "?t \<noteq> []"
      by (auto simp: slice_from_def)
    from assms have glue: "?h @ ?t = text"
      by (simp add: slice_to_def slice_from_def)
    from less [OF shorter, of "chunks @ [?h]"]
    obtain cs where cs: "chunk_loop (chunks @ [?h]) ?t max_length = Some ((chunks @ [?h]) @ cs)"
      "cs \<noteq> []" "concat cs = ?t" "\<forall>c \<in> set (butlast cs). int (length c) = max_length"
      "int (length (last cs)) \<le> max_length" "last cs \<noteq> []"
      "int (length cs) = ceil_div (int (length ?t)) max_length"
      using t_ne by auto
    from True assms have len_t: "int (length ?t) = int (length text) - max_length"
      by (simp add: slice_from_def)
    from assms have count: "ceil_div (int (length text) - max_length) max_length + 1
        = ceil_div (int (length text)) max_length"
      by (rule ceil_div_step)
    from True cs(1) have "chunk_loop chunks text max_length = Some (chunks @ (?h # cs))"
      by (subst chunk_loop.simps) simp
    moreover from cs(3) glue have "concat (?h # cs) = text" by simp
    moreover from cs(2,4) len_h have "\<forall>c \<in> set (butlast (?h # cs)). int (length c) = max_length"
      by simp
    moreover from cs(2,5,6) have "int (length (last (?h # cs))) \<le> max_length"
      "last (?h # cs) \<noteq> []" by simp_all
    moreover from cs(7) len_t count True assms have "int (length (?h # cs)) =
        (if text = [] then 1 else ceil_div (int (length text)) max_length)"
      by auto
    ultimately show ?thesis by blast
  qed
qed

lemma ceil_div_is_ceiling:
  assumes "0 < s"
  shows "(ceil_div n s - 1) * s < n \<and> n \<le> ceil_div n s * s"
proof -
  define q r where "q = (n + s - 1) div s" and "r = (n + s - 1) mod s"
  have "q * s + r = n + s - 1"
    by (simp add: q_def r_def)
  moreover from assms have "0 \<le> r" "r < s" by (simp_all add: r_def)
  moreover have "(q - 1) * s = q * s - s" by (simp add: left_diff_distrib)
  ultimately have "(q - 1) * s < n" "n \<le> q * s"
    by linarith+
  then show ?thesis unfolding ceil_div_def q_def by simp
qed

section \<open>Comprehensions, chunking of all documents\<close>

lemma comprehension_total:
  "(\<And>x. x \<in> set xs \<Longrightarrow> f x = Inr (g x)) \<Longrightarrow> comprehension f xs = Inr (map g xs)"
  by (induction xs) simp_all

lemma comprehension_Inr:
  "comprehension f xs = Inr ys \<Longrightarrow> list_all2 (\<lambda>x y. f x = Inr y) xs ys"
  by (induction xs arbitrary: ys) (auto split: sum.splits)

lemma chunk_to_length_512:
  "\<exists>cs. chunk_to_length doc 512 = Some cs \<and> cs \<noteq> [] \<and> concat cs = doc
        \<and> (\<forall>c \<in> set cs. int (length c) \<le> 512)"
proof -
  from chunk_loop_positive [of 512 "[]" doc]
  obtain cs where cs: "chunk_loop [] doc 512 = Some cs" "cs \<noteq> []" "concat cs = doc"
    "\<forall>c \<in> set (butlast cs). int (length c) = 512" "int (length (last cs)) \<le> 512"
    by auto
  have "\<forall>c \<in> set cs. int (length c) \<le> 512"
  proof
    fix c assume "c \<in> set cs"
    with cs(2) have "c \<in> set (butlast cs) \<or> c = last cs"
      by (metis append_butlast_last_id in_set_conv_decomp_first rotate1.simps(2) set_ConsD set_rotate1)
    with cs(4,5) show "int (length c) \<le> 512" by auto
  qed
  with cs show ?thesis by (auto simp: chunk_to_length_def)
qed

lemma chunk_all_docs:
  "\<exists>chunked_docs. those (map (\<lambda>doc. chunk_to_length doc 512) converted_docs) = Some chunked_docs
      \<and> length chunked_docs = length converted_docs
      \<and> map concat chunked_docs = converted_docs
      \<and> (\<forall>cs \<in> set chunked_docs. cs \<noteq> [] \<and> (\<forall>c \<in> set cs. int (length c) \<le> 512))"
proof (induction converted_docs)
  case Nil
  then show ?case by simp
next
  case (Cons doc docs)
  from chunk_to_length_512 [of doc] obtain cs where "chunk_to_length doc 512 = Some cs"
    "cs \<noteq> []" "concat cs = doc" "\<forall>c \<in> set cs. int (length c) \<le> 512" by blast
  with Cons show ?case by auto
qed

lemma total_length_nonneg: "0 \<le> total_length converted_docs"
  unfolding total_length_def by (induction converted_docs) simp_all

lemma allocate_loop_stop:
  "\<not> (snd st < max_characters \<and> queued qe > 0)
   \<Longrightarrow> allocate_loop chunked_docs max_characters qe st = Inr (qe, st)"
  by (subst allocate_loop.simps) auto

lemma chunk_texts_empty:
  "chunk_texts chunked_docs (replicate n []) = Inr (replicate n [])"
proof -
  have "comprehension
       (\<lambda>(doc_idx, chunks). comprehension (\<lambda>chunk_idx. index2 chunked_docs doc_idx chunk_idx) chunks)
       (zip [0..<n] (replicate n [])) = Inr (map (\<lambda>x. []) (zip [0..<n] (replicate n ([]::nat list))))"
    by (rule comprehension_total) (auto simp: set_zip)
  then show ?thesis
    by (simp add: chunk_texts_def map_replicate_const)
qed

section \<open>The scorer and the merged queues as functions of the queries\<close>

lemma first_occurrences_snoc:
  "first_occurrences (xs @ [x]) =
     (if x \<in> set xs then first_occurrences xs else first_occurrences xs @ [x])"
  by (simp add: first_occurrences_def)

lemma set_first_occurrences [simp]: "set (first_occurrences xs) = set xs"
  by (simp add: first_occurrences_def)

lemma distinct_first_occurrences [simp]: "distinct (first_occurrences xs)"
  by (simp add: first_occurrences_def)

lemma update_absent:
  "k \<notin> fst ` set al \<Longrightarrow> AList.update k v al = al @ [(k, v)]"
  by (induction al) auto

lemma update_present:
  "k \<in> set ks \<Longrightarrow> distinct ks \<Longrightarrow>
   AList.update k v (map (\<lambda>q. (q, A q)) ks) = map (\<lambda>q. (q, (A(k := v)) q)) ks"
  by (induction ks) auto

lemma zip_upt_map:
  "zip [0..<length xs] (map f xs) = map (\<lambda>i. (i, f (xs ! i))) [0..<length xs]"
  by (rule nth_equalityI) auto

lemma embed_fold:
  "embed m queries chunks =
     foldl (\<lambda>results query. AList.update query (query_scores_of m chunks query) results) [] queries"
proof -
  have z: "zip queries (map (\<lambda>q. map (inner m q) (map (encode m) chunks)) (map (encode_query m) queries))
      = map (\<lambda>q. (q, map (\<lambda>c. inner m (encode_query m q) (encode m c)) chunks)) queries"
    by (simp add: zip_map2 zip_same_conv_map comp_def)
  have "query_scores_of m chunks q
      = zip [0..<length chunks] (map (\<lambda>c. inner m (encode_query m q) (encode m c)) chunks)" for q
    unfolding query_scores_of_def by (rule zip_upt_map [symmetric])
  then show ?thesis
    unfolding embed_def Let_def z by (simp add: foldl_map)
qed

lemma embed_eq:
  "embed m queries chunks =
     map (\<lambda>q. (q, query_scores_of m chunks q)) (first_occurrences queries)"
proof (induction queries rule: rev_induct)
  case Nil
  then show ?case by (simp add: embed_fold first_occurrences_def)
next
  case (snoc q qs)
  let ?G = "query_scores_of m chunks"
  have "embed m (qs @ [q]) chunks = AList.update q (?G q) (embed m qs chunks)"
    by (simp add: embed_fold)
  also have "\<dots> = AList.update q (?G q) (map (\<lambda>q. (q, ?G q)) (first_occurrences qs))"
    by (simp only: snoc)
  also have "\<dots> = map (\<lambda>q. (q, ?G q)) (first_occurrences (qs @ [q]))"
  proof (cases "q \<in> set qs")
    case True
    then have "q \<in> set (first_occurrences qs)" by simp
    from update_present [OF this distinct_first_occurrences, of "?G q" ?G] True show ?thesis
      by (simp add: first_occurrences_snoc)
  next
    case False
    then have "q \<notin> fst ` set (map (\<lambda>q. (q, ?G q)) (first_occurrences qs))"
      by (simp add: image_comp comp_def)
    from update_absent [OF this] False show ?thesis
      by (simp add: first_occurrences_snoc)
  qed
  finally show ?case .
qed

lemma all_candidates_snoc:
  "all_candidates m (cd @ [chunks]) q =
     all_candidates m cd q @ tag_doc (length cd) (query_scores_of m chunks q)"
  by (simp add: all_candidates_def)

lemma map_of_keyed: "k \<in> set ks \<Longrightarrow> map_of (map (\<lambda>q. (q, A q)) ks) k = Some (A k)"
  by (induction ks) auto

lemma map_of_keyed_None: "k \<notin> set ks \<Longrightarrow> map_of (map (\<lambda>q. (q, A q)) ks) k = None"
  by (induction ks) auto

lemma add_doc_scores_first:
  assumes "distinct ks"
  shows "foldl (add_doc_scores n) [] (map (\<lambda>q. (q, R q)) ks) = map (\<lambda>q. (q, tag_doc n (R q))) ks"
  using assms
proof (induction ks rule: rev_induct)
  case Nil
  then show ?case by simp
next
  case (snoc k ks)
  then have k: "k \<notin> set ks" and IH: "foldl (add_doc_scores n) [] (map (\<lambda>q. (q, R q)) ks)
      = map (\<lambda>q. (q, tag_doc n (R q))) ks"
    by simp_all
  from k have "k \<notin> fst ` set (map (\<lambda>q. (q, tag_doc n (R q))) ks)"
    by (simp add: image_comp comp_def)
  from update_absent [OF this] k
  have one: "add_doc_scores n (map (\<lambda>q. (q, tag_doc n (R q))) ks) (k, R k)
      = map (\<lambda>q. (q, tag_doc n (R q))) ks @ [(k, tag_doc n (R k))]"
    by (simp add: add_doc_scores_def map_of_keyed_None tag_doc_def)
  have "foldl (add_doc_scores n) [] (map (\<lambda>q. (q, R q)) (ks @ [k]))
      = add_doc_scores n (foldl (add_doc_scores n) [] (map (\<lambda>q. (q, R q)) ks)) (k, R k)"
    by simp
  also have "\<dots> = map (\<lambda>q. (q, tag_doc n (R q))) ks @ [(k, tag_doc n (R k))]"
    by (simp only: IH one)
  finally show ?case by simp
qed

lemma add_doc_scores_next:
  assumes "distinct ks" "set js \<subseteq> set ks" "distinct js"
  shows "foldl (add_doc_scores n) (map (\<lambda>q. (q, A q)) ks) (map (\<lambda>q. (q, R q)) js)
       = map (\<lambda>q. (q, if q \<in> set js then A q @ tag_doc n (R q) else A q)) ks"
  using assms(2,3)
proof (induction js arbitrary: A)
  case Nil
  then show ?case by simp
next
  case (Cons j js)
  then have j: "j \<in> set ks" "j \<notin> set js" and js: "set js \<subseteq> set ks" "distinct js"
    by simp_all
  let ?A = "A(j := A j @ tag_doc n (R j))"
  have "add_doc_scores n (map (\<lambda>q. (q, A q)) ks) (j, R j) = map (\<lambda>q. (q, ?A q)) ks"
    using update_present [OF j(1) assms(1)] j(1)
    by (simp add: add_doc_scores_def map_of_keyed tag_doc_def)
  then have "foldl (add_doc_scores n) (map (\<lambda>q. (q, A q)) ks) (map (\<lambda>q. (q, R q)) (j # js))
      = foldl (add_doc_scores n) (map (\<lambda>q. (q, ?A q)) ks) (map (\<lambda>q. (q, R q)) js)"
    by simp
  also have "\<dots> = map (\<lambda>q. (q, if q \<in> set js then ?A q @ tag_doc n (R q) else ?A q)) ks"
    by (rule Cons.IH [OF js])
  also have "\<dots> = map (\<lambda>q. (q, if q \<in> set (j # js) then A q @ tag_doc n (R q) else A q)) ks"
    using j(2) by auto
  finally show ?case .
qed

lemma merge_docs_snoc:
  "merge_docs (eds @ [ed]) = foldl (add_doc_scores (length eds)) (merge_docs eds) ed"
  by (simp add: merge_docs_def)

lemma merge_docs_eq:
  assumes "chunked_docs \<noteq> []"
  shows "merge_docs (map (\<lambda>chunks. embed m queries chunks) chunked_docs)
       = map (\<lambda>q. (q, all_candidates m chunked_docs q)) (first_occurrences queries)"
  using assms
proof (induction chunked_docs rule: rev_induct)
  case Nil
  then show ?case by simp
next
  case (snoc chunks cd)
  let ?ks = "first_occurrences queries"
  have step: "merge_docs (map (\<lambda>chunks. embed m queries chunks) (cd @ [chunks]))
      = foldl (add_doc_scores (length cd)) (merge_docs (map (\<lambda>chunks. embed m queries chunks) cd))
          (map (\<lambda>q. (q, query_scores_of m chunks q)) ?ks)"
    using merge_docs_snoc [of "map (\<lambda>chunks. embed m queries chunks) cd"]
    by (simp add: embed_eq)
  show ?case
  proof (cases "cd = []")
    case True
    then show ?thesis
      unfolding step
      by (simp add: merge_docs_def add_doc_scores_first all_candidates_def)
  next
    case False
    with snoc.IH have "merge_docs (map (\<lambda>chunks. embed m queries chunks) cd)
        = map (\<lambda>q. (q, all_candidates m cd q)) ?ks" by simp
    then show ?thesis
      unfolding step
      by (simp add: add_doc_scores_next all_candidates_snoc)
  qed
qed

lemma candidate_queues_eq:
  "candidate_queues m queries chunked_docs =
     (if chunked_docs = [] then []
      else map (\<lambda>q. (q, sorted_reverse score (all_candidates m chunked_docs q)))
             (first_occurrences queries))"
  by (simp add: candidate_queues_def merge_docs_eq sort_queues_def comp_def)
    (simp add: merge_docs_def sort_queues_def)

section \<open>Invariants of the allocation loop\<close>

lemma selected_chars_append:
  assumes "d < length de"
  shows "selected_chars cd (de[d := de ! d @ [i]]) = selected_chars cd de + int (length (cd ! d ! i))"
proof -
  let ?g = "\<lambda>de d. sum_list (map (\<lambda>i. int (length (cd ! d ! i))) (de ! d))"
  let ?de = "de[d := de ! d @ [i]]"
  from assms have mem: "d \<in> {..<length de}" by simp
  have "selected_chars cd ?de = ?g ?de d + sum (?g ?de) ({..<length de} - {d})"
    unfolding selected_chars_def using sum.remove [OF _ mem, of "?g ?de"] by simp
  also have "sum (?g ?de) ({..<length de} - {d}) = sum (?g de) ({..<length de} - {d})"
    by (rule sum.cong) auto
  also from assms have "?g ?de d = ?g de d + int (length (cd ! d ! i))" by simp
  finally show ?thesis
    unfolding selected_chars_def using sum.remove [OF _ mem, of "?g de"] by simp
qed

lemma selected_chars_empty: "selected_chars cd (replicate n []) = 0"
  by (simp add: selected_chars_def)

lemma selection_ok_initial: "selection_ok cd (replicate n [], 0)"
  by (simp add: selection_ok_def selected_chars_empty)

lemma index_Inr: "index xs i = Inr x \<longleftrightarrow> i < length xs \<and> x = xs ! i"
  by (auto simp: index_def)

lemma index2_Inr:
  "index2 xss i j = Inr x \<longleftrightarrow> i < length xss \<and> j < length (xss ! i) \<and> x = xss ! i ! j"
  by (auto simp: index2_def index_def split: sum.splits)

lemma take_candidate_cases:
  assumes "take_candidate cd mc (de, tc) (d, i, s) = Inr st'"
  shows "st' = (de, tc) \<or>
         (d < length cd \<and> i < length (cd ! d) \<and> d < length de \<and> i \<notin> set (de ! d)
          \<and> tc + int (length (cd ! d ! i)) \<le> mc
          \<and> st' = (de[d := de ! d @ [i]], tc + int (length (cd ! d ! i))))"
  using assms
  by (auto simp: take_candidate_def index2_Inr index_Inr split: sum.splits if_splits)

lemma take_candidate_ok:
  assumes "take_candidate cd mc st c = Inr st'" "selection_ok cd st"
  shows "selection_ok cd st'"
proof -
  obtain de tc d i s where st: "st = (de, tc)" and c: "c = (d, i, s)"
    by (cases st, cases c) auto
  from take_candidate_cases [OF assms(1) [unfolded st c]]
  show ?thesis
  proof
    assume "st' = (de, tc)"
    with assms(2) st show ?thesis by simp
  next
    assume a: "d < length cd \<and> i < length (cd ! d) \<and> d < length de \<and> i \<notin> set (de ! d)
          \<and> tc + int (length (cd ! d ! i)) \<le> mc
          \<and> st' = (de[d := de ! d @ [i]], tc + int (length (cd ! d ! i)))"
    from assms(2) st have ok: "\<forall>e<length de. distinct (de ! e)
          \<and> (\<forall>j \<in> set (de ! e). e < length cd \<and> j < length (cd ! e))"
      and tc: "tc = selected_chars cd de"
      by (simp_all add: selection_ok_def)
    have "\<forall>e<length de. distinct (de[d := de ! d @ [i]] ! e)
          \<and> (\<forall>j \<in> set (de[d := de ! d @ [i]] ! e). e < length cd \<and> j < length (cd ! e))"
    proof (intro allI impI)
      fix e assume e: "e < length de"
      show "distinct (de[d := de ! d @ [i]] ! e)
          \<and> (\<forall>j \<in> set (de[d := de ! d @ [i]] ! e). e < length cd \<and> j < length (cd ! e))"
        using ok e a by (cases "e = d") auto
    qed
    with a tc show ?thesis
      by (simp add: selection_ok_def selected_chars_append)
  qed
qed

lemma take_candidate_budget:
  assumes "take_candidate cd mc st c = Inr st'" "snd st \<le> mc"
  shows "snd st' \<le> mc"
proof -
  obtain de tc d i s where st: "st = (de, tc)" and c: "c = (d, i, s)"
    by (cases st, cases c) auto
  from take_candidate_cases [OF assms(1) [unfolded st c]] assms(2) st
  show ?thesis by auto
qed

lemma take_candidate_length:
  assumes "take_candidate cd mc st c = Inr st'"
  shows "length (fst st') = length (fst st)"
proof -
  obtain de tc d i s where st: "st = (de, tc)" and c: "c = (d, i, s)"
    by (cases st, cases c) auto
  from take_candidate_cases [OF assms(1) [unfolded st c]] st
  show ?thesis by auto
qed

lemma allocate_round_inv:
  fixes qe :: "'s queues"
  assumes "allocate_round cd mc qe st = Inr (qe', st')"
    and "\<And>s (c :: 's candidate) s'. take_candidate cd mc s c = Inr s' \<Longrightarrow> P s \<Longrightarrow> P s'"
    and "P st"
  shows "P st'"
  using assms
proof (induction cd mc qe st arbitrary: qe' st' rule: allocate_round.induct)
  case (1 cd mc st)
  then show ?case by simp
next
  case (2 cd mc query rest st)
  from "2.prems"(1) obtain rest' where
    r: "allocate_round cd mc rest st = Inr (rest', st')"
    by (auto split: sum.splits)
  from "2.IH" [OF r "2.prems"(2,3)] show ?case .
next
  case (3 cd mc query cand doc_scores rest st)
  from "3.prems"(1) obtain st1 rest' where
    t: "take_candidate cd mc st cand = Inr st1" and
    r: "allocate_round cd mc rest st1 = Inr (rest', st')"
    by (auto split: sum.splits)
  from "3.prems"(2) [OF t "3.prems"(3)] have "P st1" .
  from "3.IH" [OF t r "3.prems"(2) this] show ?case .
qed

lemma allocate_loop_unfold:
  "snd st < mc \<and> queued qe > 0 \<Longrightarrow>
   allocate_loop cd mc qe st =
     (case allocate_round cd mc qe st of
        Inl e \<Rightarrow> Inl e
      | Inr (qe', st') \<Rightarrow> allocate_loop cd mc qe' st')"
  by (subst allocate_loop.simps) simp

lemma allocate_loop_inv:
  fixes qe :: "'s queues"
  assumes "allocate_loop cd mc qe st = Inr (qe', st')"
    and "\<And>s (c :: 's candidate) s'. take_candidate cd mc s c = Inr s' \<Longrightarrow> P s \<Longrightarrow> P s'"
    and "P st"
  shows "P st'"
  using assms
proof (induction cd mc qe st rule: allocate_loop.induct)
  case (1 cd mc qe st)
  show ?case
  proof (cases "snd st < mc \<and> queued qe > 0")
    case False
    then have "allocate_loop cd mc qe st = Inr (qe, st)"
      by (rule allocate_loop_stop)
    with "1.prems"(1,3) show ?thesis by simp
  next
    case True
    from "1.prems"(1) have "(case allocate_round cd mc qe st of
        Inl e \<Rightarrow> Inl e
      | Inr (qe', st') \<Rightarrow> allocate_loop cd mc qe' st') = Inr (qe', st')"
      by (simp only: allocate_loop_unfold [OF True])
    then obtain qe1 st1 where
      r: "allocate_round cd mc qe st = Inr (qe1, st1)" and
      l: "allocate_loop cd mc qe1 st1 = Inr (qe', st')"
      by (cases "allocate_round cd mc qe st") auto
    from allocate_round_inv [where P = P, OF r "1.prems"(2,3)] have "P st1" .
    from "1.IH" [OF True r refl l "1.prems"(2) this] show ?thesis .
  qed
qed

section \<open>Order of the merged queues\<close>

lemma set_insort_reverse: "set (insort_reverse k x ys) = insert x (set ys)"
  by (induction ys) auto

lemma set_sorted_reverse: "set (sorted_reverse k xs) = set xs"
  unfolding sorted_reverse_def by (induction xs) (simp_all add: set_insort_reverse)

lemma insort_reverse_stable:
  assumes "sorted_wrt (\<lambda>a b. k a > k b \<or> (k a = k b \<and> R a b)) ys" "\<forall>y \<in> set ys. R x y"
  shows "sorted_wrt (\<lambda>a b. k a > k b \<or> (k a = k b \<and> R a b)) (insort_reverse k x ys)"
  using assms
proof (induction ys)
  case Nil
  then show ?case by simp
next
  case (Cons y ys)
  show ?case
  proof (cases "k x \<ge> k y")
    case True
    have "k x > k z \<or> (k x = k z \<and> R x z)" if "z \<in> set (y # ys)" for z
    proof -
      from that Cons.prems(1) have "k y \<ge> k z" by auto
      with True have "k x \<ge> k z" by simp
      with that Cons.prems(2) show ?thesis by auto
    qed
    with True Cons.prems(1) show ?thesis by simp
  next
    case False
    with Cons show ?thesis by (auto simp: set_insort_reverse)
  qed
qed

lemma sorted_reverse_stable:
  assumes "sorted_wrt R xs"
  shows "sorted_wrt (\<lambda>a b. k a > k b \<or> (k a = k b \<and> R a b)) (sorted_reverse k xs)"
  using assms
proof (induction xs)
  case Nil
  then show ?case by (simp add: sorted_reverse_def)
next
  case (Cons x xs)
  then have "sorted_wrt (\<lambda>a b. k a > k b \<or> (k a = k b \<and> R a b)) (sorted_reverse k xs)"
    and "\<forall>y \<in> set (sorted_reverse k xs). R x y"
    by (simp_all add: set_sorted_reverse)
  from insort_reverse_stable [OF this] show ?case
    by (simp add: sorted_reverse_def)
qed

lemma set_tag_doc:
  "set (tag_doc n (query_scores_of m chunks q)) =
     {(n, i, inner m (encode_query m q) (encode m (chunks ! i))) | i. i < length chunks}"
  by (auto simp: tag_doc_def query_scores_of_def)

lemma sorted_tag_doc: "sorted_wrt position_before (tag_doc n (query_scores_of m chunks q))"
proof -
  have "sorted_wrt (<) [0..<length chunks]" by simp
  then show ?thesis
    by (simp add: tag_doc_def query_scores_of_def sorted_wrt_map position_before_def comp_def)
qed

lemma set_all_candidates:
  "set (all_candidates m cd q) =
     {(d, i, inner m (encode_query m q) (encode m (cd ! d ! i))) | d i.
        d < length cd \<and> i < length (cd ! d)}"
proof (induction cd rule: rev_induct)
  case Nil
  then show ?case by (simp add: all_candidates_def)
next
  case (snoc chunks cd)
  show ?case
    unfolding all_candidates_snoc set_append snoc.IH set_tag_doc
    by (auto simp: nth_append less_Suc_eq)
qed

lemma sorted_all_candidates: "sorted_wrt position_before (all_candidates m cd q)"
proof (induction cd rule: rev_induct)
  case Nil
  then show ?case by (simp add: all_candidates_def)
next
  case (snoc chunks cd)
  have "position_before x y"
    if "x \<in> set (all_candidates m cd q)" "y \<in> set (tag_doc (length cd) (query_scores_of m chunks q))"
    for x y
    using that unfolding set_all_candidates set_tag_doc by (auto simp: position_before_def)
  with snoc sorted_tag_doc [of "length cd" m chunks q] show ?case
    by (simp add: all_candidates_snoc sorted_wrt_append)
qed

lemma candidate_before_alt:
  "candidate_before = (\<lambda>a b. score a > score b \<or> (score a = score b \<and> position_before a b))"
  by (auto simp: candidate_before_def position_before_def score_def fun_eq_iff)

section \<open>The loop returns when the queues are in range\<close>

lemma queues_in_range_Cons:
  "queues_in_range cd n ((q, ds) # rest) \<longleftrightarrow>
     (\<forall>(d, i, s) \<in> set ds. d < length cd \<and> i < length (cd ! d) \<and> d < n)
     \<and> queues_in_range cd n rest"
  by (simp add: queues_in_range_def)

lemma queues_in_range_pop:
  assumes "queues_in_range cd n qe"
  shows "queues_in_range cd n (map (\<lambda>(query, doc_scores). (query, drop 1 doc_scores)) qe)"
  using assms
proof (induction qe)
  case Nil
  then show ?case by simp
next
  case (Cons x qe)
  obtain q ds where x: "x = (q, ds)" by (cases x)
  have "set (drop 1 ds) \<subseteq> set ds" by (rule set_drop_subset)
  with Cons show ?case
    unfolding x by (auto simp: queues_in_range_Cons)
qed

lemma take_candidate_returns:
  assumes "d < length cd" "i < length (cd ! d)" "d < length de"
  shows "\<exists>st'. take_candidate cd mc (de, tc) (d, i, s) = Inr st'"
  using assms by (simp add: take_candidate_def index2_def index_def)

lemma allocate_round_returns:
  fixes qe :: "'s queues"
  assumes "queues_in_range cd (length (fst st)) qe"
  shows "\<exists>qe' st'. allocate_round cd mc qe st = Inr (qe', st')"
  using assms
proof (induction cd mc qe st rule: allocate_round.induct)
  case (1 cd mc st)
  then show ?case by simp
next
  case (2 cd mc query rest st)
  then show ?case by (auto simp: queues_in_range_Cons)
next
  case (3 cd mc query cand doc_scores rest st)
  obtain d i s where cand: "cand = (d, i, s)" by (cases cand)
  obtain de tc where st: "st = (de, tc)" by (cases st)
  from "3.prems" cand st have "d < length cd" "i < length (cd ! d)" "d < length de"
    and rest: "queues_in_range cd (length (fst st)) rest"
    by (auto simp: queues_in_range_Cons)
  from take_candidate_returns [OF this(1-3), where mc = mc and tc = tc and s = s] cand st
  obtain st1 where
    t: "take_candidate cd mc st cand = Inr st1" by blast
  from take_candidate_length [OF t] rest have "queues_in_range cd (length (fst st1)) rest"
    by simp
  from "3.IH" [OF t this] t show ?case by auto
qed

lemma allocate_round_length:
  fixes qe :: "'s queues"
  assumes "allocate_round cd mc qe st = Inr (qe', st')"
  shows "length (fst st') = length (fst st)"
proof -
  have "\<And>s (c :: 's candidate) s'. take_candidate cd mc s c = Inr s' \<Longrightarrow>
      length (fst s) = length (fst st) \<Longrightarrow> length (fst s') = length (fst st)"
    using take_candidate_length by metis
  from allocate_round_inv [where P = "\<lambda>s. length (fst s) = length (fst st)", OF assms this]
  show ?thesis by simp
qed

lemma allocate_loop_returns:
  fixes qe :: "'s queues"
  assumes "queues_in_range cd (length (fst st)) qe"
  shows "\<exists>qe' st'. allocate_loop cd mc qe st = Inr (qe', st')"
  using assms
proof (induction cd mc qe st rule: allocate_loop.induct)
  case (1 cd mc qe st)
  show ?case
  proof (cases "snd st < mc \<and> queued qe > 0")
    case False
    then show ?thesis by (simp add: allocate_loop_stop)
  next
    case True
    from allocate_round_returns [OF "1.prems"] obtain qe1 st1 where
      r: "allocate_round cd mc qe st = Inr (qe1, st1)" by blast
    from allocate_round_pops [OF r] queues_in_range_pop [OF "1.prems"] allocate_round_length [OF r]
    have "queues_in_range cd (length (fst st1)) qe1" by simp
    from "1.IH" [OF True r refl this] r show ?thesis
      by (simp add: allocate_loop_unfold [OF True])
  qed
qed

lemma chunk_texts_returns:
  assumes "selection_ok cd (de, tc)"
  shows "chunk_texts cd de =
     Inr (map (\<lambda>(d, idxs). map (\<lambda>i. cd ! d ! i) idxs) (zip [0..<length de] de))"
  unfolding chunk_texts_def
proof (rule comprehension_total)
  fix x assume "x \<in> set (zip [0..<length de] de)"
  then obtain d where d: "d < length de" and x: "x = (d, de ! d)"
    by (auto simp: set_zip)
  from assms d have "\<forall>i \<in> set (de ! d). d < length cd \<and> i < length (cd ! d)"
    by (simp add: selection_ok_def)
  then have "comprehension (\<lambda>chunk_idx. index2 cd d chunk_idx) (de ! d)
      = Inr (map (\<lambda>i. cd ! d ! i) (de ! d))"
    by (intro comprehension_total) (simp add: index2_Inr)
  then show "(case x of (doc_idx, chunks) \<Rightarrow>
       comprehension (\<lambda>chunk_idx. index2 cd doc_idx chunk_idx) chunks)
     = Inr (case x of (d, idxs) \<Rightarrow> map (\<lambda>i. cd ! d ! i) idxs)"
    by (simp add: x)
qed

lemma sum_list_concat_map:
  "sum_list (map f (concat xss)) = sum_list (map (\<lambda>xs. sum_list (map f xs)) xss)"
  by (induction xss) simp_all

lemma fragments_length:
  "sum_list (map (\<lambda>fragment. int (length fragment))
       (concat (map (\<lambda>(d, idxs). map (\<lambda>i. cd ! d ! i) idxs) (zip [0..<length de] de))))
   = selected_chars cd de"
proof -
  have z: "zip [0..<length de] de = map (\<lambda>d. (d, de ! d)) [0..<length de]"
    by (rule nth_equalityI) auto
  have "sum_list (map (\<lambda>fragment. int (length fragment))
       (concat (map (\<lambda>(d, idxs). map (\<lambda>i. cd ! d ! i) idxs) (zip [0..<length de] de))))
     = sum_list (map (\<lambda>d. sum_list (map (\<lambda>i. int (length (cd ! d ! i))) (de ! d))) [0..<length de])"
    unfolding z by (simp add: sum_list_concat_map comp_def)
  also have "\<dots> = selected_chars cd de"
    unfolding selected_chars_def by (simp add: interv_sum_list_conv_sum_set_nat atLeast0LessThan)
  finally show ?thesis .
qed

section \<open>The chunked path of the entry point\<close>

lemma comprehension_length: "comprehension f xs = Inr ys \<Longrightarrow> length ys = length xs"
  by (drule comprehension_Inr) (rule list_all2_lengthD [symmetric])

lemma convert_docs_length:
  assumes "convert_docs fs documents filenames = Inr converted_docs"
  shows "length converted_docs \<le> length documents"
  using comprehension_length [OF assms [unfolded convert_docs_def]] by simp

lemma candidate_queues_in_range:
  assumes "length chunked_docs \<le> n"
  shows "queues_in_range chunked_docs n (candidate_queues m queries chunked_docs)"
  using assms
  by (auto simp: queues_in_range_def candidate_queues_eq set_sorted_reverse set_all_candidates)

lemma predict_chunked:
  assumes "convert_docs fs documents (split document_filenames newline) = Inr converted_docs"
    and "\<not> total_length converted_docs < max_characters"
    and "those (map (\<lambda>doc. chunk_to_length doc 512) converted_docs) = Some chunked_docs"
  shows "predict fs m queries documents document_filenames max_characters =
     Some (case allocate chunked_docs (candidate_queues m (split queries newline) chunked_docs)
                  (length documents) max_characters of
             Inl e \<Rightarrow> Inl e
           | Inr document_embeddings \<Rightarrow> chunk_texts chunked_docs document_embeddings)"
  using assms by (simp add: predict_def Let_def)

lemma allocate_Inr:
  assumes "allocate cd qe n mc = Inr de"
  shows "\<exists>qe' tc. allocate_loop cd mc qe (replicate n [], 0) = Inr (qe', de, tc)"
  using assms by (auto simp: allocate_def split: sum.splits)

lemma allocate_selection_ok:
  fixes qe :: "'s queues"
  assumes "allocate_loop cd mc qe (replicate n [], 0) = Inr (qe', de, tc)"
  shows "selection_ok cd (de, tc)"
proof -
  have "\<And>s (c :: 's candidate) s'. take_candidate cd mc s c = Inr s' \<Longrightarrow>
      selection_ok cd s \<Longrightarrow> selection_ok cd s'"
    by (rule take_candidate_ok)
  from allocate_loop_inv [where P = "selection_ok cd", OF assms this selection_ok_initial]
  show ?thesis .
qed

lemma allocate_within_budget:
  fixes qe :: "'s queues"
  assumes "allocate_loop cd mc qe (replicate n [], 0) = Inr (qe', de, tc)" "0 \<le> mc"
  shows "tc \<le> mc"
proof -
  have "\<And>s (c :: 's candidate) s'. take_candidate cd mc s c = Inr s' \<Longrightarrow>
      snd s \<le> mc \<Longrightarrow> snd s' \<le> mc"
    by (rule take_candidate_budget)
  from allocate_loop_inv [where P = "\<lambda>s. snd s \<le> mc", OF assms(1) this] assms(2)
  show ?thesis by simp
qed

section \<open>Rounds of the allocation loop\<close>

lemma take_candidates_append:
  "take_candidates cd mc st (xs @ ys) =
     (case take_candidates cd mc st xs of Inl e \<Rightarrow> Inl e | Inr st1 \<Rightarrow> take_candidates cd mc st1 ys)"
  by (induction xs arbitrary: st) (auto split: sum.splits)

lemma allocate_round_eq:
  "allocate_round cd mc qe st =
     (case take_candidates cd mc st (round_candidates 0 qe) of
        Inl e \<Rightarrow> Inl e
      | Inr st' \<Rightarrow> Inr (pop_queues 1 qe, st'))"
  by (induction cd mc qe st rule: allocate_round.induct)
    (auto simp: round_candidates_def pop_queues_def split: sum.splits)

lemma round_candidates_pop:
  "round_candidates j (pop_queues (Suc 0) qe) = round_candidates (Suc j) qe"
  by (induction qe) (auto simp: round_candidates_def pop_queues_def drop_Suc drop_tl)

lemma pop_queues_pop: "pop_queues k (pop_queues (Suc 0) qe) = pop_queues (Suc k) qe"
  by (induction qe) (auto simp: pop_queues_def drop_Suc drop_tl)

lemma rounds_Suc:
  "concat (map (\<lambda>j. round_candidates j qe) [0..<Suc k]) =
     round_candidates 0 qe @ concat (map (\<lambda>j. round_candidates j (pop_queues 1 qe)) [0..<k])"
proof -
  have "[0..<Suc k] = 0 # map Suc [0..<k]"
    by (simp add: upt_conv_Cons map_Suc_upt del: upt_Suc)
  then show ?thesis
    by (simp add: round_candidates_pop comp_def del: upt_Suc)
qed

lemma allocate_loop_rounds:
  fixes qe :: "'s queues"
  assumes "allocate_loop cd mc qe st = Inr (qe', st')"
  shows "\<exists>k. qe' = pop_queues k qe
           \<and> take_candidates cd mc st (concat (map (\<lambda>j. round_candidates j qe) [0..<k])) = Inr st'"
  using assms
proof (induction cd mc qe st rule: allocate_loop.induct)
  case (1 cd mc qe st)
  show ?case
  proof (cases "snd st < mc \<and> queued qe > 0")
    case False
    then have "allocate_loop cd mc qe st = Inr (qe, st)"
      by (rule allocate_loop_stop)
    with "1.prems" have "qe' = pop_queues 0 qe"
      "take_candidates cd mc st (concat (map (\<lambda>j. round_candidates j qe) [0..<0])) = Inr st'"
      by (simp_all add: pop_queues_def)
    then show ?thesis by blast
  next
    case True
    from "1.prems" have "(case allocate_round cd mc qe st of
        Inl e \<Rightarrow> Inl e
      | Inr (qe', st') \<Rightarrow> allocate_loop cd mc qe' st') = Inr (qe', st')"
      by (simp only: allocate_loop_unfold [OF True])
    then obtain qe1 st1 where
      r: "allocate_round cd mc qe st = Inr (qe1, st1)" and
      l: "allocate_loop cd mc qe1 st1 = Inr (qe', st')"
      by (cases "allocate_round cd mc qe st") auto
    from r have qe1: "qe1 = pop_queues 1 qe"
      and t: "take_candidates cd mc st (round_candidates 0 qe) = Inr st1"
      by (auto simp: allocate_round_eq split: sum.splits)
    from "1.IH" [OF True r refl l] obtain k where
      k: "qe' = pop_queues k qe1"
      "take_candidates cd mc st1 (concat (map (\<lambda>j. round_candidates j qe1) [0..<k])) = Inr st'"
      by blast
    from k(1) qe1 have "qe' = pop_queues (Suc k) qe"
      by (simp add: pop_queues_pop)
    moreover from k(2) t qe1
    have "take_candidates cd mc st (concat (map (\<lambda>j. round_candidates j qe) [0..<Suc k])) = Inr st'"
      by (simp only: rounds_Suc take_candidates_append sum.case)
    ultimately show ?thesis by blast
  qed
qed

lemma candidate_queues_keys:
  "chunked_docs \<noteq> [] \<Longrightarrow>
   map fst (candidate_queues m queries chunked_docs) = first_occurrences queries"
  by (simp add: candidate_queues_eq comp_def)

section \<open>The claims\<close>

text \<open>
  C1, fast path. The claim: when the converted documents together are shorter than
  \<^verbatim>\<open>max_characters\<close>, \<^verbatim>\<open>predict\<close> returns every document's full text as its single
  fragment. The early return unpacks each text into two names, so a five-character
  document raises \<^verbatim>\<open>ValueError\<close>, and a two-character document is returned as its
  first character.
\<close>

theorem fast_path_raises:
  "predict example_fs example_model ''q'' [''hello''] ''a.txt'' 1000
     = Some (Inl (ValueError ''too many values to unpack (expected 2)''))
   \<and> predict example_fs example_model ''q'' [''hi''] ''a.txt'' 1000 = Some (Inr [[''h'']])"
  by code_simp

text \<open>
  C2, budget respected, as the claim states it: on the chunked path the fragments that
  \<^verbatim>\<open>predict\<close> returns never have more than \<^verbatim>\<open>max_characters\<close> characters together.
  With \<^verbatim>\<open>max_characters = -1\<close> and one document of five characters the call is on the
  chunked path (5 is not less than -1), no round of the loop runs, and the empty
  fragment list it returns has 0 characters, which is more than -1.
\<close>

theorem budget_negative_counterexample:
  "convert_docs example_fs [''hello''] (split ''a.txt'' newline) = Inr [''hello'']
   \<and> \<not> total_length [''hello''] < - 1
   \<and> predict example_fs example_model ''q'' [''hello''] ''a.txt'' (- 1) = Some (Inr [[]])
   \<and> \<not> sum_list (map (\<lambda>fragment. int (length fragment)) (concat [[]::string list]))
         \<le> (- 1 :: int)"
proof -
  have c: "convert_docs example_fs [''hello''] (split ''a.txt'' newline) = Inr [''hello'']"
    by code_simp
  have t: "\<not> total_length [''hello''] < - 1"
    by code_simp
  have p: "predict example_fs example_model ''q'' [''hello''] ''a.txt'' (- 1) = Some (Inr [[]])"
    by code_simp
  have s: "\<not> sum_list (map (\<lambda>fragment. int (length fragment)) (concat [[]::string list]))
         \<le> (- 1 :: int)"
    by simp
  from c t p s show ?thesis by (simp only: simp_thms)
qed

text \<open>
  C2, amended: on the chunked path (the converted documents together are not shorter
  than \<^verbatim>\<open>max_characters\<close>), for a budget that is not negative, the fragments
  \<^verbatim>\<open>predict\<close> returns have together at most \<^verbatim>\<open>max_characters\<close> characters; and
  for every budget, whenever the loop body adds a chunk, the running total after the
  addition is at most \<^verbatim>\<open>max_characters\<close>.
\<close>

theorem budget_respected:
  "(convert_docs fs documents (split document_filenames newline) = Inr converted_docs
      \<and> \<not> total_length converted_docs < max_characters
      \<and> 0 \<le> max_characters
      \<and> predict fs m queries documents document_filenames max_characters = Some (Inr fragments)
    \<longrightarrow> sum_list (map (\<lambda>fragment. int (length fragment)) (concat fragments))
          \<le> max_characters)
   \<and> (\<forall>chunked_docs st (cand :: 's candidate) st'.
          take_candidate chunked_docs max_characters st cand = Inr st' \<longrightarrow> st' \<noteq> st
          \<longrightarrow> snd st' \<le> max_characters)"
proof (intro conjI impI allI)
  assume a: "convert_docs fs documents (split document_filenames newline) = Inr converted_docs
      \<and> \<not> total_length converted_docs < max_characters
      \<and> 0 \<le> max_characters
      \<and> predict fs m queries documents document_filenames max_characters = Some (Inr fragments)"
  from chunk_all_docs [of converted_docs] obtain cd where
    cd: "those (map (\<lambda>doc. chunk_to_length doc 512) converted_docs) = Some cd"
    by blast
  let ?qe = "candidate_queues m (split queries newline) cd"
  from a have "predict fs m queries documents document_filenames max_characters =
     Some (case allocate cd ?qe (length documents) max_characters of
             Inl e \<Rightarrow> Inl e
           | Inr document_embeddings \<Rightarrow> chunk_texts cd document_embeddings)"
    by (intro predict_chunked [OF _ _ cd]) simp_all
  with a obtain de where
    alloc: "allocate cd ?qe (length documents) max_characters = Inr de"
    and texts: "chunk_texts cd de = Inr fragments"
    by (auto split: sum.splits)
  from allocate_Inr [OF alloc] obtain qe' tc where
    loop: "allocate_loop cd max_characters ?qe (replicate (length documents) [], 0)
             = Inr (qe', de, tc)"
    by blast
  from allocate_selection_ok [OF loop] have ok: "selection_ok cd (de, tc)" .
  then have "tc = selected_chars cd de" by (simp add: selection_ok_def)
  moreover from chunk_texts_returns [OF ok] texts
  have "fragments = map (\<lambda>(d, idxs). map (\<lambda>i. cd ! d ! i) idxs) (zip [0..<length de] de)"
    by simp
  ultimately have "sum_list (map (\<lambda>fragment. int (length fragment)) (concat fragments)) = tc"
    by (simp only: fragments_length)
  moreover from a have "0 \<le> max_characters" by simp
  from allocate_within_budget [OF loop this] have "tc \<le> max_characters" .
  ultimately
  show "sum_list (map (\<lambda>fragment. int (length fragment)) (concat fragments)) \<le> max_characters"
    by simp
next
  fix chunked_docs st and cand :: "'s candidate" and st'
  assume t: "take_candidate chunked_docs max_characters st cand = Inr st'" and ne: "st' \<noteq> st"
  obtain de tc d i s where st: "st = (de, tc)" and c: "cand = (d, i, s)"
    by (cases st, cases cand) auto
  from take_candidate_cases [OF t [unfolded st c]] ne st
  show "snd st' \<le> max_characters" by auto
qed

theorem budget_respected_witness:
  "convert_docs example_fs [''hello'', ''abc''] (split (''a.txt'' @ [newline] @ ''b.md'') newline)
     = Inr [''hello'', ''abc'']
   \<and> \<not> total_length [''hello'', ''abc''] < 7
   \<and> (0::int) \<le> 7
   \<and> predict example_fs example_model (''q'' @ [newline] @ ''qq'') [''hello'', ''abc'']
         (''a.txt'' @ [newline] @ ''b.md'') 7 = Some (Inr [[''hello''], []])
   \<and> sum_list (map (\<lambda>fragment. int (length fragment)) (concat [[''hello''], []])) \<le> 7"
proof -
  have c: "convert_docs example_fs [''hello'', ''abc'']
      (split (''a.txt'' @ [newline] @ ''b.md'') newline) = Inr [''hello'', ''abc'']"
    by code_simp
  have t: "\<not> total_length [''hello'', ''abc''] < 7" by code_simp
  have z: "(0::int) \<le> 7" by simp
  have p: "predict example_fs example_model (''q'' @ [newline] @ ''qq'') [''hello'', ''abc'']
         (''a.txt'' @ [newline] @ ''b.md'') 7 = Some (Inr [[''hello''], []])"
    by code_simp
  from budget_respected [of example_fs "[''hello'', ''abc'']" "''a.txt'' @ [newline] @ ''b.md''"
      "[''hello'', ''abc'']" 7 example_model "''q'' @ [newline] @ ''qq''" "[[''hello''], []]"]
    c t z p
  show ?thesis by blast
qed

text \<open>
  C3, round-robin one-shot consumption. One pass over the dictionary hands the head of
  every non-empty queue, in the order of the dictionary, to the loop body and leaves
  every queue without its head. The loop as a whole runs some number \<open>k\<close> of passes: pass
  \<open>j\<close> takes position \<open>j\<close> of every queue that is long enough, so no position is
  taken twice, and the queues are left without their first \<open>k\<close> candidates. With at
  least one document, the order of the dictionary is the order in which the queries
  were supplied (a repeated query counts where it first stands).
\<close>

theorem round_robin_one_shot:
  fixes qe :: "('s::linorder) queues"
  shows "allocate_round cd mc qe st =
      (case take_candidates cd mc st (round_candidates 0 qe) of
         Inl e \<Rightarrow> Inl e
       | Inr st1 \<Rightarrow> Inr (pop_queues 1 qe, st1))
   \<and> (allocate_loop cd mc qe st = Inr (qe', st') \<longrightarrow>
        (\<exists>k. qe' = pop_queues k qe
           \<and> take_candidates cd mc st (concat (map (\<lambda>j. round_candidates j qe) [0..<k]))
               = Inr st'))
   \<and> (cd \<noteq> []
        \<longrightarrow> map fst (candidate_queues m queries cd) = first_occurrences queries)"
  using allocate_round_eq [of cd mc qe st] allocate_loop_rounds [of cd mc qe st qe' st']
    candidate_queues_keys [of cd m queries]
  by blast

theorem round_robin_one_shot_witness:
  "allocate_loop [[''a'', ''bb'']] 2 example_queues ([[]], 0)
     = Inr ([(''q'', [(0, 0, 1)]), (''qq'', [(0, 0, 2)])], ([[1]], 2))
   \<and> (\<exists>k. [(''q'', [(0, 0, 1)]), (''qq'', [(0, 0, 2)])] = pop_queues k example_queues
        \<and> take_candidates [[''a'', ''bb'']] 2 ([[]], 0)
             (concat (map (\<lambda>j. round_candidates j example_queues) [0..<k]))
            = Inr ([[1]], 2))
   \<and> map fst (candidate_queues example_model [''q'', ''qq'', ''q''] [[''a'', ''bb'']])
       = first_occurrences [''q'', ''qq'', ''q'']"
proof -
  have l: "allocate_loop [[''a'', ''bb'']] 2 example_queues ([[]], 0)
     = Inr ([(''q'', [(0, 0, 1)]), (''qq'', [(0, 0, 2)])], ([[1]], 2))"
    by code_simp
  have n: "[[''a'', ''bb'']] \<noteq> []" by simp
  from round_robin_one_shot [of "[[''a'', ''bb'']]" 2 example_queues "([[]], 0)"
      "[(''q'', [(0, 0, 1)]), (''qq'', [(0, 0, 2)])]" "([[1]], 2)"
      example_model "[''q'', ''qq'', ''q'']"] l n
  show ?thesis by blast
qed

text \<open>
  C4, scorer ranking, as the claim states it: the list \<^verbatim>\<open>embed\<close> returns for a query is
  in descending score order. With scores 1 for chunk 0 and 2 for chunk 1 the list is
  in ascending score order.
\<close>

theorem embed_counterexample:
  "embed example_model [''q''] [''a'', ''bb''] = [(''q'', [(0, 1), (1, 2)])]
   \<and> \<not> sorted_wrt (\<lambda>a b. snd a \<ge> snd b) [(0::nat, 1::nat), (1, 2)]"
  by code_simp

text \<open>
  C4, amended: for every query, the list \<^verbatim>\<open>embed\<close> returns holds every chunk position
  once, in ascending position order, each with the inner product of the query vector and
  that chunk's vector; \<^verbatim>\<open>embed\<close> does not sort by score (\<^verbatim>\<open>predict\<close> sorts the
  merged lists later).
\<close>

theorem embed_chunk_order:
  "\<forall>(query, ranked) \<in> set (embed m queries chunks).
     map fst ranked = [0..<length chunks]
     \<and> map snd ranked = map (\<lambda>chunk. inner m (encode_query m query) (encode m chunk)) chunks"
proof -
  have "map fst (query_scores_of m chunks q) = [0..<length chunks]" for q
    by (simp add: query_scores_of_def comp_def)
  moreover have "map snd (query_scores_of m chunks q)
      = map (\<lambda>chunk. inner m (encode_query m q) (encode m chunk)) chunks" for q
    by (rule nth_equalityI) (simp_all add: query_scores_of_def)
  ultimately show ?thesis
    by (auto simp: embed_eq)
qed

theorem embed_chunk_order_witness:
  "embed example_model [''q''] [''a'', ''bb''] = [(''q'', [(0, 1), (1, 2)])]
   \<and> map fst [(0::nat, 1::nat), (1, 2)] = [0..<length [''a'', ''bb'']]
   \<and> map snd [(0::nat, 1::nat), (1, 2)]
       = map (\<lambda>chunk. inner example_model (encode_query example_model ''q'')
                         (encode example_model chunk)) [''a'', ''bb'']"
proof -
  have e: "embed example_model [''q''] [''a'', ''bb''] = [(''q'', [(0, 1), (1, 2)])]"
    by code_simp
  from embed_chunk_order [of example_model "[''q'']" "[''a'', ''bb'']"]
  have "map fst [(0::nat, 1::nat), (1, 2)] = [0..<length [''a'', ''bb'']]
   \<and> map snd [(0::nat, 1::nat), (1, 2)]
       = map (\<lambda>chunk. inner example_model (encode_query example_model ''q'')
                         (encode example_model chunk)) [''a'', ''bb'']"
    unfolding e by (simp only: list.set ball_simps case_prod_conv)
  with e show ?thesis by (simp only: simp_thms)
qed

text \<open>
  C5, merged-queue determinism: in every merged queue that \<^verbatim>\<open>predict\<close> builds, of two
  candidates the earlier one has the higher score, or the same score and the smaller
  pair of document position and chunk position.
\<close>

theorem merged_queue_order:
  "\<forall>(query, queue) \<in> set (candidate_queues m queries chunked_docs).
     sorted_wrt candidate_before queue"
  using sorted_reverse_stable [OF sorted_all_candidates, of score m chunked_docs]
  by (auto simp: candidate_queues_eq candidate_before_alt)

theorem merged_queue_order_witness:
  "candidate_queues example_model [''q''] [[''a'', ''bb''], [''cc'', ''d'']]
     = [(''q'', [(0, 1, 2), (1, 0, 2), (0, 0, 1), (1, 1, 1)])]
   \<and> sorted_wrt candidate_before [(0::nat, 1::nat, 2::nat), (1, 0, 2), (0, 0, 1), (1, 1, 1)]"
proof -
  have e: "candidate_queues example_model [''q''] [[''a'', ''bb''], [''cc'', ''d'']]
     = [(''q'', [(0, 1, 2), (1, 0, 2), (0, 0, 1), (1, 1, 1)])]"
    by code_simp
  from merged_queue_order [of example_model "[''q'']" "[[''a'', ''bb''], [''cc'', ''d'']]"]
  have "sorted_wrt candidate_before [(0::nat, 1::nat, 2::nat), (1, 0, 2), (0, 0, 1), (1, 1, 1)]"
    unfolding e by (simp only: list.set ball_simps case_prod_conv)
  with e show ?thesis by (simp only: simp_thms)
qed

text \<open>
  C6, chunker round-trip: for every text and every positive \<^verbatim>\<open>max_length\<close>,
  \<^verbatim>\<open>chunk_to_length\<close> returns, the chunks concatenated in order are the text, and
  every chunk but the last has exactly \<^verbatim>\<open>max_length\<close> characters.
\<close>

theorem chunk_round_trip:
  assumes "0 < max_length"
  shows "\<exists>chunks. chunk_to_length text max_length = Some chunks
           \<and> concat chunks = text
           \<and> (\<forall>c \<in> set (butlast chunks). int (length c) = max_length)"
  using chunk_loop_positive [OF assms, of "[]" "text"]
  unfolding chunk_to_length_def by auto

theorem chunk_round_trip_witness:
  "(0::int) < 4 \<and> (\<exists>chunks. chunk_to_length ''hello world'' 4 = Some chunks
      \<and> chunks = [''hell'', ''o wo'', ''rld'']
      \<and> concat chunks = ''hello world''
      \<and> list_all (\<lambda>c. int (length c) = 4) (butlast chunks))"
  using chunk_round_trip [of 4 "''hello world''"]
  by (simp add: chunk_to_length_def chunk_loop.simps slice_to_def slice_from_def)

text \<open>
  C7, chunk count, as the claim states it: a text of \<open>N\<close> characters, \<open>N = 0\<close>
  included, gives \<open>\<lceil>N / S\<rceil>\<close> chunks. The empty text gives one chunk, not
  \<open>\<lceil>0 / 512\<rceil> = 0\<close>.
\<close>

theorem chunk_count_counterexample:
  "chunk_to_length [] 512 = Some [[]]
   \<and> int (length [[]::string]) \<noteq> ceil_div (int (length ([]::string))) 512"
  by (simp add: chunk_to_length_def chunk_loop.simps ceil_div_def)

text \<open>
  C7, amended: for every positive chunk size \<open>S\<close>, a text of \<open>N \<ge> 1\<close> characters
  gives exactly \<open>\<lceil>N / S\<rceil>\<close> chunks, and the empty text gives exactly one chunk.
\<close>

theorem chunk_count:
  assumes "0 < max_length"
  shows "\<exists>chunks. chunk_to_length text max_length = Some chunks
           \<and> int (length chunks) =
               (if text = [] then 1 else ceil_div (int (length text)) max_length)"
  using chunk_loop_positive [OF assms, of "[]" "text"]
  unfolding chunk_to_length_def by auto

theorem chunk_count_witness:
  "(0::int) < 4 \<and> (\<exists>chunks. chunk_to_length ''hello world'' 4 = Some chunks
      \<and> int (length chunks) = 3 \<and> ceil_div (int (length ''hello world'')) 4 = 3)"
  using chunk_count [of 4 "''hello world''"]
  by (simp add: chunk_to_length_def chunk_loop.simps slice_to_def slice_from_def ceil_div_def)

text \<open>
  C8, no duplicate selection: whatever the chunks, the queues, the number of documents
  and the budget, no chunk position stands twice in the list that the allocation loop
  selects for a document. \<^verbatim>\<open>predict\<close> maps exactly these lists to chunk texts.
\<close>

theorem no_duplicate_selection:
  assumes "allocate chunked_docs query_embeddings n_documents max_characters
           = Inr document_embeddings"
  shows "\<forall>chunks \<in> set document_embeddings. distinct chunks"
proof
  fix chunks assume "chunks \<in> set document_embeddings"
  then obtain d where d: "d < length document_embeddings" "chunks = document_embeddings ! d"
    by (auto simp: in_set_conv_nth)
  from allocate_Inr [OF assms] obtain qe' tc where
    "allocate_loop chunked_docs max_characters query_embeddings (replicate n_documents [], 0)
       = Inr (qe', document_embeddings, tc)" by blast
  from allocate_selection_ok [OF this] d show "distinct chunks"
    by (simp add: selection_ok_def)
qed

theorem no_duplicate_selection_witness:
  "allocate [[''a'', ''bb'']] example_queues 1 10 = Inr [[1, 0]]
   \<and> distinct [1::nat, 0]"
proof -
  have a: "allocate [[''a'', ''bb'']] example_queues 1 10 = Inr [[1, 0]]"
    by code_simp
  from no_duplicate_selection [OF a] a show ?thesis by simp
qed

text \<open>
  C9, invalid budget, as the claim states it: a call with a non-positive
  \<^verbatim>\<open>max_characters\<close> is rejected with an error before any work. The call with
  \<^verbatim>\<open>max_characters = -1\<close> returns an empty fragment list for its document and raises
  nothing.
\<close>

theorem invalid_budget_counterexample:
  "predict example_fs example_model ''q'' [''hello''] ''a.txt'' (-1) = Some (Inr [[]])
   \<and> (\<nexists>e. predict example_fs example_model ''q'' [''hello''] ''a.txt'' (-1) = Some (Inl e))"
proof -
  have "predict example_fs example_model ''q'' [''hello''] ''a.txt'' (-1) = Some (Inr [[]])"
    by code_simp
  then show ?thesis by simp
qed

text \<open>
  C9, amended: \<^verbatim>\<open>predict\<close> has no budget check. With a non-positive
  \<^verbatim>\<open>max_characters\<close> it converts the documents first (an exception of the converter
  is raised to the caller), then chunks and embeds them, runs no allocation round, and
  returns an empty fragment list for every document.
\<close>

theorem predict_nonpositive_budget:
  assumes "max_characters \<le> 0"
  shows "predict fs m queries documents document_filenames max_characters =
    (case convert_docs fs documents (split document_filenames newline) of
       Inl e \<Rightarrow> Some (Inl e)
     | Inr converted_docs \<Rightarrow> Some (Inr (replicate (length documents) [])))"
proof (cases "convert_docs fs documents (split document_filenames newline)")
  case (Inl e)
  then show ?thesis by (simp add: predict_def)
next
  case (Inr converted_docs)
  from chunk_all_docs [of converted_docs] obtain chunked_docs where
    cd: "those (map (\<lambda>doc. chunk_to_length doc 512) converted_docs) = Some chunked_docs"
    by blast
  from assms total_length_nonneg [of converted_docs]
  have slow: "\<not> total_length converted_docs < max_characters" by simp
  from assms have "allocate chunked_docs
      (candidate_queues m (split queries newline) chunked_docs) (length documents) max_characters
      = Inr (replicate (length documents) [])"
    unfolding allocate_def by (subst allocate_loop_stop) simp_all
  with Inr cd slow show ?thesis
    by (simp add: predict_def Let_def chunk_texts_empty)
qed

theorem predict_nonpositive_budget_witness:
  "(0::int) \<le> 0 \<and> predict example_fs example_model ''q'' [''hello''] ''a.txt'' 0 = Some (Inr [[]])"
proof -
  have "convert_docs example_fs [''hello''] (split ''a.txt'' newline) = Inr [''hello'']"
    by code_simp
  with predict_nonpositive_budget [of 0 example_fs example_model "''q''" "[''hello'']" "''a.txt''"]
  show ?thesis by simp
qed

text \<open>
  C10, in-range indexing: on the chunked path every candidate of every merged queue
  carries a document position inside \<^verbatim>\<open>chunked_docs\<close> (and inside
  \<^verbatim>\<open>document_embeddings\<close>, which has one entry per document) and a chunk position
  inside that document's chunks, and \<^verbatim>\<open>predict\<close> returns its fragments: neither the
  lookup in the loop nor the final mapping to chunk texts raises \<^verbatim>\<open>IndexError\<close>.
\<close>

theorem in_range_indexing:
  assumes "convert_docs fs documents (split document_filenames newline) = Inr converted_docs"
    and "\<not> total_length converted_docs < max_characters"
  shows "\<exists>chunked_docs fragments.
     those (map (\<lambda>doc. chunk_to_length doc 512) converted_docs) = Some chunked_docs
     \<and> (\<forall>(query, queue) \<in> set (candidate_queues m (split queries newline) chunked_docs).
          \<forall>(doc_idx, chunk_idx, s) \<in> set queue.
            doc_idx < length chunked_docs \<and> chunk_idx < length (chunked_docs ! doc_idx)
            \<and> doc_idx < length documents)
     \<and> predict fs m queries documents document_filenames max_characters = Some (Inr fragments)"
proof -
  from chunk_all_docs [of converted_docs] obtain cd where
    cd: "those (map (\<lambda>doc. chunk_to_length doc 512) converted_docs) = Some cd"
    and len: "length cd = length converted_docs"
    by blast
  let ?qe = "candidate_queues m (split queries newline) cd"
  from len convert_docs_length [OF assms(1)] have "length cd \<le> length documents" by simp
  then have range: "queues_in_range cd (length documents) ?qe"
    by (rule candidate_queues_in_range)
  then have "queues_in_range cd (length (fst (replicate (length documents) ([]::nat list), 0::int))) ?qe"
    by simp
  from allocate_loop_returns [OF this, of max_characters] obtain qe' de tc where
    loop: "allocate_loop cd max_characters ?qe (replicate (length documents) [], 0) = Inr (qe', de, tc)"
    by auto
  then have alloc: "allocate cd ?qe (length documents) max_characters = Inr de"
    by (simp add: allocate_def)
  from chunk_texts_returns [OF allocate_selection_ok [OF loop]] obtain fragments where
    "chunk_texts cd de = Inr fragments" by blast
  with alloc predict_chunked [OF assms cd, of m queries]
  have "predict fs m queries documents document_filenames max_characters = Some (Inr fragments)"
    by simp
  with cd range show ?thesis
    unfolding queues_in_range_def by blast
qed

theorem in_range_indexing_witness:
  "convert_docs example_fs [''hello'', ''abc''] (split (''a.txt'' @ [newline] @ ''b.md'') newline)
     = Inr [''hello'', ''abc'']
   \<and> \<not> total_length [''hello'', ''abc''] < 7
   \<and> (\<exists>chunked_docs fragments.
        those (map (\<lambda>doc. chunk_to_length doc 512) [''hello'', ''abc'']) = Some chunked_docs
        \<and> (\<forall>(query, queue) \<in> set (candidate_queues example_model
                 (split (''q'' @ [newline] @ ''qq'') newline) chunked_docs).
             \<forall>(doc_idx, chunk_idx, s) \<in> set queue.
               doc_idx < length chunked_docs \<and> chunk_idx < length (chunked_docs ! doc_idx)
               \<and> doc_idx < length [''hello'', ''abc''])
        \<and> predict example_fs example_model (''q'' @ [newline] @ ''qq'') [''hello'', ''abc'']
             (''a.txt'' @ [newline] @ ''b.md'') 7 = Some (Inr fragments))"
proof -
  have c: "convert_docs example_fs [''hello'', ''abc'']
      (split (''a.txt'' @ [newline] @ ''b.md'') newline) = Inr [''hello'', ''abc'']"
    by code_simp
  have t: "\<not> total_length [''hello'', ''abc''] < 7" by code_simp
  from in_range_indexing [OF c t, of example_model "''q'' @ [newline] @ ''qq''"] c t
  show ?thesis by blast
qed

end
